theory Spec2Isabelle
  imports Main
begin

section \<open>Time and parsing primitives used by the scheduler\<close>

text \<open>
  A naive \<^verbatim>\<open>datetime\<close> is modelled as an integer number of microseconds (its
  resolution) counted from a midnight; a \<^verbatim>\<open>timedelta\<close> is an integer number of
  microseconds. The calls to \<^verbatim>\<open>datetime.now()\<close> become an explicit argument
  \<open>now\<close>. The bounded range of Python's \<^verbatim>\<open>datetime\<close> (years 1 to 9999) is
  not modelled.
\<close>

datatype py_error = ValueError | IndexError | AttributeError

text \<open>
  \<^verbatim>\<open>timedelta(seconds=3600.0 / n)\<close> in microseconds: the quotient rounded to the
  nearest microsecond, ties to even, as \<^verbatim>\<open>timedelta\<close> documents. The source only
  evaluates it for \<open>n > 0\<close>. The quotient is taken exactly here; the double rounding of
  \<^verbatim>\<open>3600.0 / n\<close> is far below the distance to the next tie, and \<open>n\<close> is assumed
  to be in the range of a double.
\<close>

definition timedelta_us :: "int \<Rightarrow> int" where
  "timedelta_us n =
     (let q = 3600000000 div n; r = 3600000000 mod n
      in if 2 * r < n then q
         else if n < 2 * r then q + 1
         else if even q then q else q + 1)"

definition is_digit :: "char \<Rightarrow> bool" where
  "is_digit c = (48 \<le> (of_char c :: nat) \<and> (of_char c :: nat) \<le> 57)"

definition digit_val :: "char \<Rightarrow> nat" where
  "digit_val c = (of_char c :: nat) - 48"

text \<open>
  \<^verbatim>\<open>datetime.strptime(timestr, '%H:%M')\<close>. The library compiles the format to the
  regular expression \<^verbatim>\<open>(?P<H>2[0-3]|[0-1]\d|\d):(?P<M>[0-5]\d|\d)\<close>, matches it at the
  start of the string and raises \<^verbatim>\<open>ValueError\<close> when it does not match or when
  unconverted characters remain. \<open>None\<close> stands for the \<^verbatim>\<open>ValueError\<close>. Characters are
  the 8-bit characters of \<^typ>\<open>string\<close> and a digit is an ASCII digit.
\<close>

fun match_H :: "string \<Rightarrow> (nat \<times> string) option" where
  "match_H [] = None"
| "match_H [a] = (if is_digit a then Some (digit_val a, []) else None)"
| "match_H (a # b # rest) =
     (if a = CHR ''2'' \<and> is_digit b \<and> digit_val b \<le> 3
        then Some (20 + digit_val b, rest)
      else if is_digit a \<and> digit_val a \<le> 1 \<and> is_digit b
        then Some (10 * digit_val a + digit_val b, rest)
      else if is_digit a then Some (digit_val a, b # rest)
      else None)"

fun match_M :: "string \<Rightarrow> (nat \<times> string) option" where
  "match_M [] = None"
| "match_M [a] = (if is_digit a then Some (digit_val a, []) else None)"
| "match_M (a # b # rest) =
     (if is_digit a \<and> digit_val a \<le> 5 \<and> is_digit b
        then Some (10 * digit_val a + digit_val b, rest)
      else if is_digit a then Some (digit_val a, b # rest)
      else None)"

definition strptime_HM :: "string \<Rightarrow> (nat \<times> nat) option" where
  "strptime_HM timestr =
     (case match_H timestr of
        None \<Rightarrow> None
      | Some (h, r1) \<Rightarrow>
          (case r1 of
             [] \<Rightarrow> None
           | c # r2 \<Rightarrow>
               if c = CHR '':'' then
                 (case match_M r2 of
                    None \<Rightarrow> None
                  | Some (m, r3) \<Rightarrow> if r3 = [] then Some (h, m) else None)
               else None))"

definition day_us :: int where
  "day_us = 86400000000"

text \<open>\<^verbatim>\<open>now.replace(hour=h, minute=m, second=0, microsecond=0)\<close>\<close>

definition candidate :: "int \<Rightarrow> nat \<Rightarrow> nat \<Rightarrow> int" where
  "candidate now h m = now - now mod day_us + (int h * 3600 + int m * 60) * 1000000"


section \<open>SchedulerState\<close>

datatype sched_mode = Times | PerHour

record SchedulerState =
  mode :: "sched_mode option"
  times_list :: "string list"
  per_hour :: int
  next_jingle_time :: "int option"
  last_jingle_time :: "int option"

definition init_state :: SchedulerState where
  "init_state = \<lparr>mode = None, times_list = [], per_hour = 0,
                 next_jingle_time = None, last_jingle_time = None\<rparr>"

definition set_per_hour :: "int \<Rightarrow> int \<Rightarrow> SchedulerState \<Rightarrow> SchedulerState" where
  "set_per_hour now n s =
     s\<lparr>mode := (if n > 0 then Some PerHour else None),
       per_hour := n,
       last_jingle_time := Some now,
       next_jingle_time := (if n > 0 then Some (now + timedelta_us n) else None)\<rparr>"

definition add_time :: "string \<Rightarrow> SchedulerState \<Rightarrow> bool \<times> SchedulerState" where
  "add_time timestr s =
     (case strptime_HM timestr of
        None \<Rightarrow> (False, s)
      | Some t \<Rightarrow> (True, s\<lparr>times_list := times_list s @ [timestr], mode := Some Times\<rparr>))"

definition remove_time :: "string \<Rightarrow> SchedulerState \<Rightarrow> SchedulerState" where
  "remove_time timestr s =
     (let s1 = (if timestr \<in> set (times_list s)
                then s\<lparr>times_list := remove1 timestr (times_list s)\<rparr> else s)
      in if times_list s1 = [] \<and> per_hour s1 = 0 then s1\<lparr>mode := None\<rparr> else s1)"

text \<open>
  The \<^verbatim>\<open>for tstr in list(self.times)\<close> loop of
  \<^verbatim>\<open>should_play_jingle_after_song\<close>: the first entry, in list order, whose instant of
  today is not after \<open>now\<close>; \<^verbatim>\<open>strptime\<close> raising on an entry ends the call.
\<close>

fun scan_times :: "int \<Rightarrow> string list \<Rightarrow> py_error + string option" where
  "scan_times now [] = Inr None"
| "scan_times now (tstr # rest) =
     (case strptime_HM tstr of
        None \<Rightarrow> Inl ValueError
      | Some (h, m) \<Rightarrow>
          if candidate now h m \<le> now then Inr (Some tstr) else scan_times now rest)"

text \<open>
  The \<^verbatim>\<open>while now >= self.next_jingle_time\<close> loop, on the two fields it assigns.
  The result \<open>None\<close> means that the loop does not end.
\<close>

partial_function (option)
  advance_loop :: "int \<Rightarrow> int \<Rightarrow> int option \<Rightarrow> int \<Rightarrow> (int option \<times> int) option"
where
  "advance_loop now per prev nxt =
     (if nxt \<le> now
      then advance_loop now per (Some nxt) (nxt + timedelta_us per)
      else Some (prev, nxt))"

declare advance_loop.simps [code]

definition per_hour_branch ::
  "int \<Rightarrow> SchedulerState \<Rightarrow> (py_error + bool \<times> SchedulerState) option" where
  "per_hour_branch now s =
     (if mode s = Some PerHour \<and> per_hour s > 0 then
        (case next_jingle_time s of
           None \<Rightarrow> Some (Inr (False, s))
         | Some nxt \<Rightarrow>
             if nxt \<le> now then
               (case advance_loop now (per_hour s) (last_jingle_time s) nxt of
                  None \<Rightarrow> None
                | Some (l, nxt') \<Rightarrow>
                    Some (Inr (True, s\<lparr>last_jingle_time := l, next_jingle_time := Some nxt'\<rparr>)))
             else Some (Inr (False, s)))
      else Some (Inr (False, s)))"

text \<open>
  \<^verbatim>\<open>should_play_jingle_after_song\<close>. The outer \<open>option\<close> is \<open>None\<close> when the call does
  not return; \<open>Inl\<close> is an exception leaving the call; \<open>Inr (b, s')\<close> is the returned
  boolean with the state after the call.
\<close>

definition should_play_jingle_after_song ::
  "int \<Rightarrow> SchedulerState \<Rightarrow> (py_error + bool \<times> SchedulerState) option" where
  "should_play_jingle_after_song now s =
     (if mode s = Some Times \<and> times_list s \<noteq> [] then
        (case scan_times now (times_list s) of
           Inl e \<Rightarrow> Some (Inl e)
         | Inr (Some tstr) \<Rightarrow>
             (let ts = remove1 tstr (times_list s)
              in Some (Inr (True,
                   s\<lparr>times_list := ts,
                     mode := (if ts = [] \<and> per_hour s = 0 then None else mode s)\<rparr>)))
         | Inr None \<Rightarrow> per_hour_branch now s)
      else per_hour_branch now s)"

text \<open>
  A sequence of calls of \<^verbatim>\<open>should_play_jingle_after_song\<close>, one per element of the
  list of clock readings, threading the state; the answers are collected in call order.
\<close>

fun run_calls ::
  "int list \<Rightarrow> SchedulerState \<Rightarrow> (py_error + bool list \<times> SchedulerState) option" where
  "run_calls [] s = Some (Inr ([], s))"
| "run_calls (now # rest) s =
     (case should_play_jingle_after_song now s of
        None \<Rightarrow> None
      | Some (Inl e) \<Rightarrow> Some (Inl e)
      | Some (Inr (b, s')) \<Rightarrow>
          (case run_calls rest s' of
             None \<Rightarrow> None
           | Some (Inl e) \<Rightarrow> Some (Inl e)
           | Some (Inr (bs, s'')) \<Rightarrow> Some (Inr (b # bs, s''))))"

text \<open>
  The states a \<^verbatim>\<open>SchedulerState\<close> object can be in: the constructor's, and any state
  one of the four methods returns from a reachable one.
\<close>

inductive reachable :: "SchedulerState \<Rightarrow> bool" where
  reach_init: "reachable init_state"
| reach_set_per_hour: "reachable s \<Longrightarrow> reachable (set_per_hour now n s)"
| reach_add_time: "reachable s \<Longrightarrow> reachable (snd (add_time timestr s))"
| reach_remove_time: "reachable s \<Longrightarrow> reachable (remove_time timestr s)"
| reach_should_play:
    "reachable s \<Longrightarrow> should_play_jingle_after_song now s = Some (Inr (b, s'))
       \<Longrightarrow> reachable s'"

text \<open>What the methods keep true of the \<^verbatim>\<open>mode\<close> flag.\<close>

definition mode_inv :: "SchedulerState \<Rightarrow> bool" where
  "mode_inv s =
     ((mode s = Some PerHour \<longrightarrow> 0 < per_hour s)
      \<and> (times_list s = [] \<and> per_hour s = 0 \<longrightarrow> mode s = None)
      \<and> (mode s = None \<longrightarrow> per_hour s \<le> 0))"

text \<open>The index of the schedule period, counted from the instant \<open>g\<close>, that holds \<open>t\<close>.\<close>

definition grid_cell :: "int \<Rightarrow> int \<Rightarrow> int \<Rightarrow> int" where
  "grid_cell g p t = (t - g) div p"


section \<open>The playback coordinator\<close>

text \<open>
  The part of \<^verbatim>\<open>JingleSchedulerApp\<close> that drives playback. The two VLC players
  are outside the program: what they report (\<^verbatim>\<open>is_playing()\<close>, \<^verbatim>\<open>get_state()\<close>)
  is an argument of each operation, and the calls made on them are appended to the
  field \<open>calls\<close>. Widget updates are left out. Each operation is modelled as it runs on
  its own thread, without interleaving.
\<close>

datatype vlc_State =
  NothingSpecial | Opening | Buffering | Playing | Paused | Stopped | Ended | Error

datatype player_call =
  Set_media string | Play | Pause | Stop
  | J_new | J_set_media string | J_play | J_stop

record App =
  playlist :: "string list"
  jingles :: "string list"
  play_index :: int
  playing_jingle :: bool
  jplayer :: "string option"
  scheduler :: SchedulerState
  calls :: "player_call list"

text \<open>\<^verbatim>\<open>xs[i]\<close> on a Python list: a negative index counts from the end.\<close>

definition list_item :: "'a list \<Rightarrow> int \<Rightarrow> py_error + 'a" where
  "list_item xs i =
     (if 0 \<le> i \<and> i < int (length xs) then Inr (xs ! nat i)
      else if i < 0 \<and> - int (length xs) \<le> i then Inr (xs ! nat (int (length xs) + i))
      else Inl IndexError)"

definition advance_index :: "App \<Rightarrow> App" where
  "advance_index app =
     (if playlist app = [] then app
      else app\<lparr>play_index := (play_index app + 1) mod int (length (playlist app))\<rparr>)"

definition play_current_song :: "App \<Rightarrow> py_error + App" where
  "play_current_song app =
     (if playlist app = [] then Inr app
      else (case list_item (playlist app) (play_index app) of
              Inl e \<Rightarrow> Inl e
            | Inr path \<Rightarrow> Inr (app\<lparr>calls := calls app @ [Set_media path, Play]\<rparr>)))"


definition play_next :: "App \<Rightarrow> py_error + App" where
  "play_next app =
     (let app1 = (if jplayer app \<noteq> None \<and> playing_jingle app
                  then app\<lparr>playing_jingle := False, calls := calls app @ [J_stop],
                           jplayer := None\<rparr>
                  else app)
      in play_current_song (advance_index app1))"

text \<open>
  The polling loop of \<^verbatim>\<open>_play_jingle_once\<close> over the successive answers of
  \<^verbatim>\<open>self.jplayer.get_state()\<close>: true when one of them ends the wait, false when the
  jingle is still being waited for after the last of them.
\<close>

fun jingle_wait :: "vlc_State list \<Rightarrow> bool" where
  "jingle_wait [] = False"
| "jingle_wait (state # rest) =
     (if state = Ended \<or> state = Stopped \<or> state = Error then True else jingle_wait rest)"

definition play_jingle_once :: "string \<Rightarrow> vlc_State list \<Rightarrow> App \<Rightarrow> App option" where
  "play_jingle_once jingle_path polls app =
     (if jingle_path = [] then Some app
      else
        (let app1 = app\<lparr>playing_jingle := True, jplayer := Some jingle_path,
                        calls := calls app @ [J_new, J_set_media jingle_path, J_play]\<rparr>
         in if jingle_wait polls
            then Some (app1\<lparr>playing_jingle := False, jplayer := None\<rparr>)
            else None))"

text \<open>
  One pass through the body of the \<^verbatim>\<open>while not self._monitor_stop\<close> loop of
  \<^verbatim>\<open>_monitor_playback\<close>: \<open>state\<close> is what the main player reports, \<open>r\<close> the draw of
  \<^verbatim>\<open>random.choice\<close>, \<open>polls\<close> what the jingle player reports while it is waited for.
  \<open>Some (Inr app')\<close>: the pass ends and the loop goes on; \<open>Some (Inl e)\<close>: an exception
  other than \<^verbatim>\<open>VLCException\<close> leaves the loop; \<open>None\<close>: the pass does not end.
\<close>

definition monitor_playback_pass ::
  "vlc_State \<Rightarrow> int \<Rightarrow> nat \<Rightarrow> vlc_State list \<Rightarrow> App \<Rightarrow> (py_error + App) option" where
  "monitor_playback_pass state now r polls app =
     (if state = Ended then
        (case should_play_jingle_after_song now (scheduler app) of
           None \<Rightarrow> None
         | Some (Inl e) \<Rightarrow> Some (Inl e)
         | Some (Inr (due, sch)) \<Rightarrow>
             (case (if due \<and> jingles app \<noteq> []
                    then play_jingle_once (jingles app ! (r mod length (jingles app))) polls
                           (app\<lparr>scheduler := sch\<rparr>)
                    else Some (app\<lparr>scheduler := sch\<rparr>)) of
                None \<Rightarrow> None
              | Some app2 \<Rightarrow> Some (play_current_song (advance_index app2))))
      else Some (Inr app))"

text \<open>
  The monitor thread and the thread of the buttons share the object. While the
  monitor thread sleeps inside the wait loop of \<^verbatim>\<open>_play_jingle_once\<close>, a button
  handler such as \<^verbatim>\<open>play_next\<close> can run to its end; the monitor thread then goes on
  from the loop test on the state the handler left. The three definitions below cut
  the pass at that sleep.

  \<open>jingle_start\<close> is \<^verbatim>\<open>_play_jingle_once\<close> from the assignment of
  \<^verbatim>\<open>playing_jingle\<close> to \<^verbatim>\<open>self.jplayer.play()\<close>, for a non-empty path.
  \<open>after_jingle_wait\<close> is what follows the loop: the two assignments that
  end \<^verbatim>\<open>_play_jingle_once\<close>, then \<^verbatim>\<open>_advance_index()\<close> and
  \<^verbatim>\<open>_play_current_song()\<close> of \<^verbatim>\<open>_monitor_playback\<close>.
  \<open>monitor_resume\<close> is the monitor thread going on from the loop test: the loop is
  left at once when \<^verbatim>\<open>playing_jingle\<close> is false; otherwise the jingle player is
  asked for its state, which raises \<^verbatim>\<open>AttributeError\<close> when \<^verbatim>\<open>self.jplayer\<close> is
  \<^verbatim>\<open>None\<close>, and the loop goes on as in \<open>jingle_wait\<close>.
\<close>

definition jingle_start :: "string \<Rightarrow> App \<Rightarrow> App" where
  "jingle_start jingle_path app =
     app\<lparr>playing_jingle := True, jplayer := Some jingle_path,
         calls := calls app @ [J_new, J_set_media jingle_path, J_play]\<rparr>"

definition after_jingle_wait :: "App \<Rightarrow> py_error + App" where
  "after_jingle_wait app =
     play_current_song (advance_index (app\<lparr>playing_jingle := False, jplayer := None\<rparr>))"

definition monitor_resume :: "vlc_State list \<Rightarrow> App \<Rightarrow> (py_error + App) option" where
  "monitor_resume polls app =
     (if \<not> playing_jingle app then Some (after_jingle_wait app)
      else if jplayer app = None then Some (Inl AttributeError)
      else if jingle_wait polls then Some (after_jingle_wait app)
      else None)"

definition in_range :: "App \<Rightarrow> bool" where
  "in_range app = (0 \<le> play_index app \<and> play_index app < int (length (playlist app)))"

section \<open>Facts about the primitives\<close>

lemma timedelta_us_pos:
  assumes "0 < n" "n < 7200000000"
  shows "0 < timedelta_us n"
proof -
  let ?q = "3600000000 div n" and ?r = "3600000000 mod n"
  have q0: "0 \<le> ?q" using assms by (simp add: pos_imp_zdiv_nonneg_iff)
  show ?thesis
  proof (cases "?q = 0")
    case True
    have "n * ?q + ?r = 3600000000" by (rule mult_div_mod_eq)
    with True have "?r = 3600000000" by simp
    then have "n < 2 * ?r" using assms by linarith
    then show ?thesis using q0 by (simp add: timedelta_us_def Let_def)
  next
    case False
    with q0 have "0 < ?q" by linarith
    then show ?thesis by (auto simp add: timedelta_us_def Let_def)
  qed
qed

lemma timedelta_us_examples:
  "timedelta_us 1 = 3600000000" "timedelta_us 2 = 1800000000"
  "timedelta_us 7 = 514285714" "timedelta_us 60 = 60000000"
  "timedelta_us 10000000000 = 0"
  by (simp_all add: timedelta_us_def Let_def)

text \<open>
  \<^verbatim>\<open>strptime\<close> with \<^verbatim>\<open>'%H:%M'\<close> also takes one-digit fields; it refuses an hour
  of 24, a minute of 60 and trailing characters.
\<close>

lemma strptime_HM_examples:
  "strptime_HM ''14:30'' = Some (14, 30)" "strptime_HM ''7:5'' = Some (7, 5)"
  "strptime_HM ''24:00'' = None" "strptime_HM ''12:60'' = None"
  "strptime_HM ''12:30 '' = None"
  by (simp_all add: strptime_HM_def is_digit_def digit_val_def)

subsection \<open>The catch-up loop\<close>

lemma advance_loop_stop: "now < nxt \<Longrightarrow> advance_loop now per prev nxt = Some (prev, nxt)"
  by (subst advance_loop.simps) simp

lemma advance_loop_step:
  "nxt \<le> now \<Longrightarrow>
     advance_loop now per prev nxt = advance_loop now per (Some nxt) (nxt + timedelta_us per)"
  by (subst advance_loop.simps) simp

text \<open>
  With a positive period the loop ends, on the first instant of the grid
  \<open>nxt, nxt + p, nxt + 2 p, ...\<close> that is after \<open>now\<close>, the one before it in
  \<^verbatim>\<open>last_jingle_time\<close>.
\<close>

lemma advance_loop_returns:
  assumes p: "0 < timedelta_us per"
  shows "nxt \<le> now \<Longrightarrow>
     \<exists>k. advance_loop now per prev nxt
            = Some (Some (nxt + int k * timedelta_us per), nxt + int (Suc k) * timedelta_us per)
        \<and> nxt + int k * timedelta_us per \<le> now
        \<and> now < nxt + int (Suc k) * timedelta_us per"
proof (induction "nat (now - nxt)" arbitrary: nxt prev rule: less_induct)
  case less
  let ?p = "timedelta_us per"
  show ?case
  proof (cases "nxt + ?p \<le> now")
    case True
    have "nat (now - (nxt + ?p)) < nat (now - nxt)" using p less.prems True by linarith
    from less.hyps [OF this True, of "Some nxt"]
    obtain k where k: "advance_loop now per (Some nxt) (nxt + ?p)
            = Some (Some (nxt + ?p + int k * ?p), nxt + ?p + int (Suc k) * ?p)"
        "nxt + ?p + int k * ?p \<le> now" "now < nxt + ?p + int (Suc k) * ?p"
      by blast
    have e1: "nxt + ?p + int k * ?p = nxt + int (Suc k) * ?p"
      by (simp add: algebra_simps)
    have e2: "nxt + ?p + int (Suc k) * ?p = nxt + int (Suc (Suc k)) * ?p"
      by (simp add: algebra_simps)
    show ?thesis
      apply (rule exI [of _ "Suc k"])
      using k less.prems unfolding e1 e2
      by (simp add: advance_loop_step)
  next
    case False
    then have "advance_loop now per prev nxt = Some (Some nxt, nxt + ?p)"
      using less.prems by (simp add: advance_loop_step advance_loop_stop)
    then show ?thesis using False less.prems
      by (intro exI [of _ 0]) simp
  qed
qed

text \<open>With a period of zero microseconds the loop, once entered, never ends.\<close>

lemma advance_loop_Some_imp:
  assumes "advance_loop now per prev nxt = Some r"
  shows "timedelta_us per \<le> 0 \<longrightarrow> now < nxt"
proof (rule advance_loop.raw_induct
    [where P = "\<lambda>now per prev nxt r. timedelta_us per \<le> 0 \<longrightarrow> now < nxt", OF _ assms])
  fix f :: "int \<Rightarrow> int \<Rightarrow> int option \<Rightarrow> int \<Rightarrow> (int option \<times> int) option"
    and now per nxt :: int and prev :: "int option" and r
  assume ih: "\<And>now per prev nxt r.
      f now per prev nxt = Some r \<Longrightarrow> timedelta_us per \<le> 0 \<longrightarrow> now < nxt"
    and eq: "(if nxt \<le> now then f now per (Some nxt) (nxt + timedelta_us per)
              else Some (prev, nxt)) = Some r"
  show "timedelta_us per \<le> 0 \<longrightarrow> now < nxt"
  proof (cases "nxt \<le> now")
    case True
    with eq have "f now per (Some nxt) (nxt + timedelta_us per) = Some r" by simp
    from ih [OF this] show ?thesis by linarith
  next
    case False
    then show ?thesis by simp
  qed
qed

lemma advance_loop_diverges:
  "timedelta_us per \<le> 0 \<Longrightarrow> nxt \<le> now \<Longrightarrow> advance_loop now per prev nxt = None"
  using advance_loop_Some_imp [of now per prev nxt]
  by (cases "advance_loop now per prev nxt") auto

subsection \<open>What a call of the scheduler can change\<close>

lemma per_hour_branch_cases:
  assumes "per_hour_branch now s = Some (Inr (b, s'))"
  shows "times_list s' = times_list s \<and> mode s' = mode s \<and> per_hour s' = per_hour s"
  using assms
  by (auto simp add: per_hour_branch_def split: if_splits option.splits)

lemma scan_times_mem: "scan_times now ts = Inr (Some t) \<Longrightarrow> t \<in> set ts"
  by (induction ts) (auto split: option.splits if_splits)

lemma should_play_fields:
  assumes "should_play_jingle_after_song now s = Some (Inr (b, s'))"
  shows "per_hour s' = per_hour s"
    and "set (times_list s') \<subseteq> set (times_list s)"
    and "mode s' = mode s \<or> (mode s' = None \<and> times_list s' = [] \<and> per_hour s = 0)"
    and "times_list s' = times_list s
         \<or> (mode s = Some Times \<and> (times_list s' = [] \<and> per_hour s = 0 \<longrightarrow> mode s' = None))"
  using assms
  by (auto simp add: should_play_jingle_after_song_def Let_def
      split: if_splits sum.splits option.splits dest!: per_hour_branch_cases
       dest: set_remove1_subset [THEN subsetD])

subsection \<open>Invariants of the reachable states\<close>

lemma mode_inv_init: "mode_inv init_state"
  by (simp add: mode_inv_def init_state_def)

lemma mode_inv_set_per_hour: "mode_inv (set_per_hour now n s)"
  by (simp add: mode_inv_def set_per_hour_def)

lemma mode_inv_add_time: "mode_inv s \<Longrightarrow> mode_inv (snd (add_time t s))"
  by (auto simp add: mode_inv_def add_time_def split: option.splits)

lemma mode_inv_remove_time: "mode_inv s \<Longrightarrow> mode_inv (remove_time t s)"
  by (auto simp add: mode_inv_def remove_time_def Let_def)

lemma mode_inv_should_play:
  assumes "mode_inv s" "should_play_jingle_after_song now s = Some (Inr (b, s'))"
  shows "mode_inv s'"
  using assms(1) should_play_fields [OF assms(2)]
  by (auto simp add: mode_inv_def)

lemma reachable_mode_inv: "reachable s \<Longrightarrow> mode_inv s"
  by (induction rule: reachable.induct)
    (simp_all add: mode_inv_init mode_inv_set_per_hour mode_inv_add_time mode_inv_remove_time
      mode_inv_should_play)

text \<open>Every entry of \<^verbatim>\<open>times\<close> went through \<^verbatim>\<open>add_time\<close>, so it parses.\<close>

lemma reachable_times_parse:
  "reachable s \<Longrightarrow> \<forall>t\<in>set (times_list s). strptime_HM t \<noteq> None"
proof (induction rule: reachable.induct)
  case reach_init
  then show ?case by (simp add: init_state_def)
next
  case (reach_set_per_hour s now n)
  then show ?case by (simp add: set_per_hour_def)
next
  case (reach_add_time s timestr)
  then show ?case by (auto simp add: add_time_def split: option.splits)
next
  case (reach_remove_time s timestr)
  then show ?case by (auto simp add: remove_time_def Let_def dest: notin_set_remove1)
next
  case (reach_should_play s now b s')
  then show ?case using should_play_fields(2) [OF reach_should_play.hyps(2)] by blast
qed


subsection \<open>Sequences of calls\<close>

lemma run_calls_const:
  assumes "\<And>now. should_play_jingle_after_song now s = Some (Inr (False, s))"
  shows "run_calls nows s = Some (Inr (replicate (length nows) False, s))"
  by (induction nows) (simp_all add: assms)

lemma should_play_first_fixed_time:
  "should_play_jingle_after_song 0 (snd (add_time ''00:00'' init_state))
     = Some (Inr (True, init_state))"
  by (simp add: should_play_jingle_after_song_def add_time_def init_state_def strptime_HM_def
      is_digit_def digit_val_def candidate_def day_us_def)


subsection \<open>The per-hour branch\<close>

lemma run_calls_idle:
  assumes "\<And>t. t \<in> set nows \<Longrightarrow> should_play_jingle_after_song t s = Some (Inr (False, s))"
  shows "run_calls nows s = Some (Inr (replicate (length nows) False, s))"
  using assms by (induction nows) simp_all

lemma per_hour_not_due:
  assumes "mode s = Some PerHour" "next_jingle_time s = Some g" "now < g"
  shows "should_play_jingle_after_song now s = Some (Inr (False, s))"
  using assms by (simp add: should_play_jingle_after_song_def per_hour_branch_def)

lemma per_hour_due:
  assumes "mode s = Some PerHour" "0 < per_hour s" "0 < timedelta_us (per_hour s)"
    "next_jingle_time s = Some g" "g \<le> now"
  shows "\<exists>k. should_play_jingle_after_song now s
           = Some (Inr (True, s\<lparr>last_jingle_time := Some (g + int k * timedelta_us (per_hour s)),
                                 next_jingle_time := Some (g + int (Suc k) * timedelta_us (per_hour s))\<rparr>))
        \<and> g + int k * timedelta_us (per_hour s) \<le> now
        \<and> now < g + int (Suc k) * timedelta_us (per_hour s)"
proof -
  from advance_loop_returns [OF assms(3) assms(5), of "last_jingle_time s"]
  obtain k where k: "advance_loop now (per_hour s) (last_jingle_time s) g
            = Some (Some (g + int k * timedelta_us (per_hour s)),
                    g + int (Suc k) * timedelta_us (per_hour s))"
     "g + int k * timedelta_us (per_hour s) \<le> now"
     "now < g + int (Suc k) * timedelta_us (per_hour s)"
    by blast
  have "should_play_jingle_after_song now s
           = Some (Inr (True, s\<lparr>last_jingle_time := Some (g + int k * timedelta_us (per_hour s)),
                                 next_jingle_time := Some (g + int (Suc k) * timedelta_us (per_hour s))\<rparr>))"
    using assms(1,2,4,5) k(1)
    by (simp add: should_play_jingle_after_song_def per_hour_branch_def)
  with k(2,3) show ?thesis by blast
qed

lemma per_hour_diverges:
  assumes "mode s = Some PerHour" "0 < per_hour s" "timedelta_us (per_hour s) \<le> 0"
    "next_jingle_time s = Some g" "g \<le> now"
  shows "should_play_jingle_after_song now s = None"
  using assms advance_loop_diverges [OF assms(3) assms(5), of "last_jingle_time s"]
  by (simp add: should_play_jingle_after_song_def per_hour_branch_def)

lemma grid_cell_ge:
  assumes "0 < p" "g + int k * p \<le> t"
  shows "int k \<le> grid_cell g p t"
proof -
  have "int k * p \<le> t - g" using assms(2) by simp
  then have "(int k * p) div p \<le> (t - g) div p" using assms(1) by (intro zdiv_mono1) simp_all
  then show ?thesis using assms(1) by (simp add: grid_cell_def)
qed

lemma grid_cell_eq:
  assumes "0 < p" "g + int k * p \<le> t" "t < g + int (Suc k) * p"
  shows "grid_cell g p t = int k"
proof -
  have "t - g = p * int k + (t - g - int k * p)" by (simp add: algebra_simps)
  moreover have "0 \<le> t - g - int k * p" using assms(2) by simp
  moreover have "t - g - int k * p < p" using assms(3) by (simp add: algebra_simps)
  ultimately show ?thesis unfolding grid_cell_def
    by (metis int_div_pos_eq)
qed

lemma per_hour_run:
  assumes "0 < timedelta_us n" "0 < n"
  shows "mode s = Some PerHour \<Longrightarrow> per_hour s = n \<Longrightarrow>
    next_jingle_time s = Some (g + int k * timedelta_us n) \<Longrightarrow>
    \<exists>bs s'. run_calls nows s = Some (Inr (bs, s')) \<and> length bs = length nows
      \<and> (\<forall>j<length nows. bs ! j \<longrightarrow> int k \<le> grid_cell g (timedelta_us n) (nows ! j))
      \<and> (\<forall>i j. i < j \<and> j < length nows \<and> bs ! i \<and> bs ! j \<longrightarrow>
            grid_cell g (timedelta_us n) (nows ! i) < grid_cell g (timedelta_us n) (nows ! j))"
proof (induction nows arbitrary: s k)
  case Nil
  then show ?case by simp
next
  case (Cons now rest)
  let ?p = "timedelta_us n"
  let ?c = "grid_cell g ?p"
  show ?case
  proof (cases "now < g + int k * ?p")
    case True
    have step: "should_play_jingle_after_song now s = Some (Inr (False, s))"
      using per_hour_not_due [OF Cons.prems(1) Cons.prems(3) True] .
    from Cons.IH [OF Cons.prems]
    obtain bs s' where r: "run_calls rest s = Some (Inr (bs, s'))" "length bs = length rest"
      "\<forall>j<length rest. bs ! j \<longrightarrow> int k \<le> ?c (rest ! j)"
      "\<forall>i j. i < j \<and> j < length rest \<and> bs ! i \<and> bs ! j \<longrightarrow> ?c (rest ! i) < ?c (rest ! j)"
      by blast
    have run: "run_calls (now # rest) s = Some (Inr (False # bs, s'))"
      using step r(1) by simp
    have a: "\<forall>j<length (now # rest). (False # bs) ! j \<longrightarrow> int k \<le> ?c ((now # rest) ! j)"
      using r(3) by (auto simp add: nth_Cons split: nat.splits)
    have b: "\<forall>i j. i < j \<and> j < length (now # rest) \<and> (False # bs) ! i \<and> (False # bs) ! j \<longrightarrow>
            ?c ((now # rest) ! i) < ?c ((now # rest) ! j)"
      using r(4) by (auto simp add: nth_Cons split: nat.splits)
    show ?thesis using run r(2) a b by (intro exI [of _ "False # bs"] exI [of _ s']) simp
  next
    case False
    then have due: "g + int k * ?p \<le> now" by simp
    from per_hour_due [of s "g + int k * ?p" now] Cons.prems assms due
    obtain m where m: "should_play_jingle_after_song now s
           = Some (Inr (True, s\<lparr>last_jingle_time := Some (g + int k * ?p + int m * ?p),
                                 next_jingle_time := Some (g + int k * ?p + int (Suc m) * ?p)\<rparr>))"
        "g + int k * ?p + int m * ?p \<le> now" "now < g + int k * ?p + int (Suc m) * ?p"
      by auto
    let ?s1 = "s\<lparr>last_jingle_time := Some (g + int k * ?p + int m * ?p),
                   next_jingle_time := Some (g + int k * ?p + int (Suc m) * ?p)\<rparr>"
    have e1: "g + int k * ?p + int m * ?p = g + int (k + m) * ?p" by (simp add: algebra_simps)
    have e2: "g + int k * ?p + int (Suc m) * ?p = g + int (Suc (k + m)) * ?p"
      by (simp add: algebra_simps)
    have cnow: "?c now = int (k + m)"
      using grid_cell_eq [OF assms(1), of g "k + m" now] m(2,3) unfolding e1 e2 by simp
    have "mode ?s1 = Some PerHour" "per_hour ?s1 = n"
      "next_jingle_time ?s1 = Some (g + int (Suc (k + m)) * ?p)"
      using Cons.prems(1,2) e2 by simp_all
    from Cons.IH [OF this]
    obtain bs s' where r: "run_calls rest ?s1 = Some (Inr (bs, s'))" "length bs = length rest"
      "\<forall>j<length rest. bs ! j \<longrightarrow> int (Suc (k + m)) \<le> ?c (rest ! j)"
      "\<forall>i j. i < j \<and> j < length rest \<and> bs ! i \<and> bs ! j \<longrightarrow> ?c (rest ! i) < ?c (rest ! j)"
      by blast
    have run: "run_calls (now # rest) s = Some (Inr (True # bs, s'))"
      using m(1) r(1) by simp
    have a: "\<forall>j<length (now # rest). (True # bs) ! j \<longrightarrow> int k \<le> ?c ((now # rest) ! j)"
      using r(3) cnow by (auto simp add: nth_Cons split: nat.splits)
    have b: "\<forall>i j. i < j \<and> j < length (now # rest) \<and> (True # bs) ! i \<and> (True # bs) ! j \<longrightarrow>
            ?c ((now # rest) ! i) < ?c ((now # rest) ! j)"
      using r(3,4) cnow by (auto simp add: nth_Cons split: nat.splits)
    show ?thesis using run r(2) a b by (intro exI [of _ "True # bs"] exI [of _ s']) simp
  qed
qed


subsection \<open>The fixed-time branch\<close>

lemma count_list_remove1_le: "count_list (remove1 t xs) x \<le> count_list xs x"
  by (induction xs) auto

lemma should_play_count:
  assumes "should_play_jingle_after_song now s = Some (Inr (b, s'))"
  shows "count_list (times_list s') x \<le> count_list (times_list s) x"
  using assms
  by (auto simp add: should_play_jingle_after_song_def Let_def count_list_remove1_le
      split: if_splits sum.splits option.splits dest!: per_hour_branch_cases)

lemma run_calls_count:
  "run_calls nows s = Some (Inr (bs, s')) \<Longrightarrow>
     count_list (times_list s') x \<le> count_list (times_list s) x"
proof (induction nows arbitrary: s bs)
  case Nil
  then show ?case by simp
next
  case (Cons now rest)
  from Cons.prems obtain b s1 bs1 where
    st: "should_play_jingle_after_song now s = Some (Inr (b, s1))"
    and rs: "run_calls rest s1 = Some (Inr (bs1, s'))"
    by (auto split: option.splits sum.splits)
  from Cons.IH [OF rs] should_play_count [OF st, of x] show ?case by linarith
qed

lemma scan_times_split:
  assumes "\<forall>t\<in>set ts. strptime_HM t \<noteq> None"
    and "T \<in> set ts" "strptime_HM T = Some (h, m)" "candidate now h m \<le> now"
  shows "\<exists>pre T1 post h1 m1. ts = pre @ T1 # post
      \<and> strptime_HM T1 = Some (h1, m1) \<and> candidate now h1 m1 \<le> now
      \<and> (\<forall>x\<in>set pre. \<exists>hx mx. strptime_HM x = Some (hx, mx) \<and> now < candidate now hx mx)
      \<and> (T1 = T \<or> T \<in> set post)
      \<and> scan_times now ts = Inr (Some T1)"
  using assms
proof (induction ts)
  case Nil
  then show ?case by simp
next
  case (Cons a ts)
  from Cons.prems(1) obtain ha ma where a: "strptime_HM a = Some (ha, ma)" by auto
  show ?case
  proof (cases "candidate now ha ma \<le> now")
    case True
    have "T = a \<or> T \<in> set ts" using Cons.prems(2) by auto
    then show ?thesis
      using a True
      by (intro exI [of _ "[]"] exI [of _ a] exI [of _ ts] exI [of _ ha] exI [of _ ma]) auto
  next
    case False
    then have "T \<noteq> a" using a Cons.prems(3,4) by auto
    then have "T \<in> set ts" using Cons.prems(2) by simp
    from Cons.IH [OF _ this Cons.prems(3,4)] Cons.prems(1)
    obtain pre T1 post h1 m1 where sp: "ts = pre @ T1 # post"
      "strptime_HM T1 = Some (h1, m1)" "candidate now h1 m1 \<le> now"
      "\<forall>x\<in>set pre. \<exists>hx mx. strptime_HM x = Some (hx, mx) \<and> now < candidate now hx mx"
      "T1 = T \<or> T \<in> set post" "scan_times now ts = Inr (Some T1)"
      by auto
    show ?thesis
      using sp a False
      by (intro exI [of _ "a # pre"] exI [of _ T1] exI [of _ post] exI [of _ h1] exI [of _ m1])
        auto
  qed
qed

subsection \<open>The coordinator\<close>

lemma advance_index_in_range:
  "playlist app \<noteq> [] \<Longrightarrow> in_range (advance_index app)"
  by (simp add: advance_index_def in_range_def)


lemma play_current_song_in_range:
  assumes "in_range app"
  shows "play_current_song app
           = Inr (app\<lparr>calls := calls app @ [Set_media (playlist app ! nat (play_index app)), Play]\<rparr>)"
proof -
  have "playlist app \<noteq> []" using assms by (auto simp add: in_range_def)
  then show ?thesis using assms by (simp add: play_current_song_def list_item_def in_range_def)
qed

lemma play_current_song_empty: "playlist app = [] \<Longrightarrow> play_current_song app = Inr app"
  by (simp add: play_current_song_def)


lemma jingle_wait_terminal:
  "Ended \<in> set polls \<or> Stopped \<in> set polls \<or> Error \<in> set polls \<Longrightarrow> jingle_wait polls"
  by (induction polls) auto

lemma play_jingle_once_Error:
  assumes "Error \<in> set polls" "jingle_path \<noteq> []"
  shows "play_jingle_once jingle_path polls app
     = Some (app\<lparr>playing_jingle := False, jplayer := None,
                calls := calls app @ [J_new, J_set_media jingle_path, J_play]\<rparr>)"
  using assms jingle_wait_terminal [of polls] by (simp add: play_jingle_once_def)






text \<open>
  Only \<^verbatim>\<open>vlc.State.Ended\<close> on the main player starts the end-of-song handling; the
  wait for the jingle player ends on \<^verbatim>\<open>Ended\<close>, \<^verbatim>\<open>Stopped\<close> and \<^verbatim>\<open>Error\<close>.
\<close>

lemma monitor_pass_not_ended:
  "state \<noteq> Ended \<Longrightarrow> monitor_playback_pass state now r polls app = Some (Inr app)"
  by (simp add: monitor_playback_pass_def)


text \<open>
  \<^verbatim>\<open>play_next\<close> by itself, on a state where a jingle is playing: it clears the
  flag, stops and drops the jingle player, leaves the scheduler alone and moves the
  position by one modulo the length of the playlist.
\<close>

lemma play_next_handler:
  assumes "jplayer app \<noteq> None" "playing_jingle app"
  shows "\<exists>app'. play_next app = Inr app'
     \<and> \<not> playing_jingle app' \<and> jplayer app' = None
     \<and> scheduler app' = scheduler app \<and> playlist app' = playlist app
     \<and> (playlist app = [] \<longrightarrow>
           play_index app' = play_index app \<and> calls app' = calls app @ [J_stop])
     \<and> (playlist app \<noteq> [] \<longrightarrow>
           play_index app' = (play_index app + 1) mod int (length (playlist app))
           \<and> 0 \<le> play_index app' \<and> play_index app' < int (length (playlist app))
           \<and> calls app' = calls app @ [J_stop, Set_media (playlist app ! nat (play_index app')), Play])"
proof (cases "playlist app = []")
  case True
  then show ?thesis using assms
    by (simp add: play_next_def advance_index_def play_current_song_def)
next
  case False
  let ?a1 = "app\<lparr>playing_jingle := False, calls := calls app @ [J_stop], jplayer := None\<rparr>"
  have ne: "playlist ?a1 \<noteq> []" using False by simp
  have pn: "play_next app = play_current_song (advance_index ?a1)"
    using assms by (simp add: play_next_def)
  from play_current_song_in_range [OF advance_index_in_range [OF ne]]
  show ?thesis using False pn
    by (simp add: advance_index_def)
qed

text \<open>
  Cutting the pass of the monitor loop at the sleep of the jingle wait changes
  nothing when no other thread runs in between.
\<close>

lemma monitor_resume_uninterrupted:
  assumes "jingle_path \<noteq> []"
  shows "monitor_resume polls (jingle_start jingle_path app)
     = map_option (\<lambda>a2. play_current_song (advance_index a2))
         (play_jingle_once jingle_path polls app)"
  using assms
  by (simp add: monitor_resume_def jingle_start_def after_jingle_wait_def play_jingle_once_def)

lemma monitor_pass_cut:
  assumes "should_play_jingle_after_song now (scheduler app) = Some (Inr (True, sch))"
    and "jingles app \<noteq> []" "jingles app ! (r mod length (jingles app)) \<noteq> []"
  shows "monitor_playback_pass Ended now r polls app
     = monitor_resume polls
         (jingle_start (jingles app ! (r mod length (jingles app))) (app\<lparr>scheduler := sch\<rparr>))"
proof -
  let ?path = "jingles app ! (r mod length (jingles app))"
  have "monitor_playback_pass Ended now r polls app
      = map_option (\<lambda>a2. play_current_song (advance_index a2))
          (play_jingle_once ?path polls (app\<lparr>scheduler := sch\<rparr>))"
    using assms(1,2)
    by (cases "play_jingle_once ?path polls (app\<lparr>scheduler := sch\<rparr>)")
      (simp_all add: monitor_playback_pass_def)
  then show ?thesis
    using monitor_resume_uninterrupted [OF assms(3), of polls "app\<lparr>scheduler := sch\<rparr>"] by simp
qed

text \<open>
  Once the flag is cleared the monitor thread leaves the wait and advances the
  position itself, whatever the jingle player reports.
\<close>

lemma monitor_resume_flag_cleared:
  "\<not> playing_jingle app \<Longrightarrow>
     monitor_resume polls app
       = Some (play_current_song (advance_index (app\<lparr>playing_jingle := False, jplayer := None\<rparr>)))"
  by (simp add: monitor_resume_def after_jingle_wait_def)


section \<open>The claims\<close>

text \<open>
  C6. \<^verbatim>\<open>add_time\<close> on a string that \<^verbatim>\<open>strptime\<close> refuses returns \<^verbatim>\<open>False\<close>
  without raising and leaves every field of the state as it was; on a string that
  parses it returns \<^verbatim>\<open>True\<close>, appends the string to \<^verbatim>\<open>times\<close> and sets the mode
  to \<^verbatim>\<open>'times'\<close>, the per-hour fields untouched.
\<close>

theorem add_time_result:
  "(strptime_HM timestr = None \<longrightarrow> add_time timestr s = (False, s))
   \<and> (strptime_HM timestr \<noteq> None \<longrightarrow>
        fst (add_time timestr s) = True
        \<and> times_list (snd (add_time timestr s)) = times_list s @ [timestr]
        \<and> mode (snd (add_time timestr s)) = Some Times
        \<and> per_hour (snd (add_time timestr s)) = per_hour s
        \<and> next_jingle_time (snd (add_time timestr s)) = next_jingle_time s
        \<and> last_jingle_time (snd (add_time timestr s)) = last_jingle_time s)"
  by (auto simp add: add_time_def)

theorem add_time_result_witness:
  "add_time ''24:00'' init_state = (False, init_state)
   \<and> fst (add_time ''14:30'' init_state) = True
   \<and> times_list (snd (add_time ''14:30'' init_state)) = [''14:30'']
   \<and> mode (snd (add_time ''14:30'' init_state)) = Some Times"
  using add_time_result [of "''24:00''" init_state] add_time_result [of "''14:30''" init_state]
  by (simp add: strptime_HM_def is_digit_def digit_val_def init_state_def)

text \<open>
  C4, as the claim states it: the flag is \<^verbatim>\<open>'per_hour'\<close> exactly when
  \<^verbatim>\<open>per_hour > 0\<close>. It fails after \<^verbatim>\<open>set_per_hour(2)\<close> followed by
  \<^verbatim>\<open>add_time('12:00')\<close>: \<^verbatim>\<open>add_time\<close> writes \<^verbatim>\<open>'times'\<close> into the flag
  whatever \<^verbatim>\<open>per_hour\<close> is.
\<close>

theorem mode_flag_iff_counterexample:
  "\<not> (mode (snd (add_time ''12:00'' (set_per_hour 0 2 init_state))) = Some PerHour
        \<longleftrightarrow> 0 < per_hour (snd (add_time ''12:00'' (set_per_hour 0 2 init_state))))"
  by (simp add: add_time_def set_per_hour_def init_state_def strptime_HM_def is_digit_def
      digit_val_def)

text \<open>
  C4, amended. The constructor establishes and each of \<^verbatim>\<open>set_per_hour\<close>,
  \<^verbatim>\<open>add_time\<close>, \<^verbatim>\<open>remove_time\<close> and \<^verbatim>\<open>should_play_jingle_after_song\<close> keeps:
  the flag is \<^verbatim>\<open>'per_hour'\<close> only if \<^verbatim>\<open>per_hour > 0\<close>; the flag is \<^verbatim>\<open>None\<close>
  whenever \<^verbatim>\<open>times\<close> is empty and \<^verbatim>\<open>per_hour == 0\<close>; and the flag is \<^verbatim>\<open>None\<close>
  only if \<^verbatim>\<open>per_hour\<close> is not positive.
\<close>

theorem mode_flag_invariant:
  "mode_inv init_state
   \<and> mode_inv (set_per_hour now n s)
   \<and> (mode_inv s \<longrightarrow> mode_inv (snd (add_time timestr s)))
   \<and> (mode_inv s \<longrightarrow> mode_inv (remove_time timestr s))
   \<and> (mode_inv s \<and> should_play_jingle_after_song now s = Some (Inr (b, s')) \<longrightarrow> mode_inv s')"
  using mode_inv_init mode_inv_set_per_hour mode_inv_add_time mode_inv_remove_time
    mode_inv_should_play by blast

theorem mode_flag_invariant_witness:
  "mode_inv init_state
   \<and> mode_inv (snd (add_time ''00:00'' init_state))
   \<and> mode_inv (remove_time ''00:00'' (snd (add_time ''00:00'' init_state)))
   \<and> should_play_jingle_after_song 0 (snd (add_time ''00:00'' init_state))
        = Some (Inr (True, init_state))"
  using mode_flag_invariant [of 0 0 init_state "''00:00''" True init_state]
    mode_flag_invariant [of 0 0 "snd (add_time ''00:00'' init_state)" "''00:00''" True init_state]
    should_play_first_fixed_time
  by simp

text \<open>
  C9. In a reachable state \<^verbatim>\<open>remove_time\<close> of a string that is not in \<^verbatim>\<open>times\<close>
  returns the state unchanged, all five fields; of a string that is in \<^verbatim>\<open>times\<close> it
  removes the first occurrence only, leaves the per-hour fields as they were, and
  resets the flag to \<^verbatim>\<open>None\<close> exactly when the list became empty with
  \<^verbatim>\<open>per_hour == 0\<close>.
\<close>

theorem remove_time_frame:
  assumes "reachable s"
  shows "(timestr \<notin> set (times_list s) \<longrightarrow> remove_time timestr s = s)
     \<and> (timestr \<in> set (times_list s) \<longrightarrow>
          (\<exists>pre post. times_list s = pre @ timestr # post \<and> timestr \<notin> set pre
              \<and> times_list (remove_time timestr s) = pre @ post)
          \<and> per_hour (remove_time timestr s) = per_hour s
          \<and> next_jingle_time (remove_time timestr s) = next_jingle_time s
          \<and> last_jingle_time (remove_time timestr s) = last_jingle_time s
          \<and> mode (remove_time timestr s)
              = (if times_list (remove_time timestr s) = [] \<and> per_hour s = 0 then None else mode s))"
proof (intro conjI impI)
  assume absent: "timestr \<notin> set (times_list s)"
  from reachable_mode_inv [OF assms]
  have "times_list s = [] \<and> per_hour s = 0 \<longrightarrow> mode s = None"
    by (simp add: mode_inv_def)
  then show "remove_time timestr s = s"
    using absent by (auto simp add: remove_time_def Let_def)
next
  assume present: "timestr \<in> set (times_list s)"
  then obtain pre post where sp: "times_list s = pre @ timestr # post" "timestr \<notin> set pre"
    by (meson split_list_first)
  then have "remove1 timestr (times_list s) = pre @ post"
    by (simp add: remove1_append)
  then show "\<exists>pre post. times_list s = pre @ timestr # post \<and> timestr \<notin> set pre
              \<and> times_list (remove_time timestr s) = pre @ post"
    using sp present by (auto simp add: remove_time_def Let_def)
  show "per_hour (remove_time timestr s) = per_hour s"
    by (simp add: remove_time_def Let_def)
  show "next_jingle_time (remove_time timestr s) = next_jingle_time s"
    by (simp add: remove_time_def Let_def)
  show "last_jingle_time (remove_time timestr s) = last_jingle_time s"
    by (simp add: remove_time_def Let_def)
  show "mode (remove_time timestr s)
              = (if times_list (remove_time timestr s) = [] \<and> per_hour s = 0 then None else mode s)"
    by (auto simp add: remove_time_def Let_def)
qed

theorem remove_time_frame_witness:
  "reachable (snd (add_time ''12:00'' (snd (add_time ''09:15'' init_state))))
   \<and> remove_time ''13:00'' (snd (add_time ''12:00'' (snd (add_time ''09:15'' init_state))))
       = snd (add_time ''12:00'' (snd (add_time ''09:15'' init_state)))
   \<and> times_list (remove_time ''12:00'' (snd (add_time ''12:00'' (snd (add_time ''09:15'' init_state)))))
       = [''09:15'']"
proof -
  let ?s = "snd (add_time ''12:00'' (snd (add_time ''09:15'' init_state)))"
  have r: "reachable ?s"
    by (intro reach_add_time reach_init)
  have ts: "times_list ?s = [''09:15'', ''12:00'']"
    by (simp add: add_time_def init_state_def strptime_HM_def is_digit_def digit_val_def)
  have a: "remove_time ''13:00'' ?s = ?s"
    using remove_time_frame [OF r, of "''13:00''"] ts by simp
  obtain pre post where pp: "[''09:15'', ''12:00''] = pre @ ''12:00'' # post"
     "''12:00'' \<notin> set pre" "times_list (remove_time ''12:00'' ?s) = pre @ post"
    using remove_time_frame [OF r, of "''12:00''"] ts by auto
  have "pre = [''09:15''] \<and> post = []"
    using pp(1,2) by (cases pre; cases "tl pre") (auto simp: Cons_eq_append_conv)
  with pp(3) have b: "times_list (remove_time ''12:00'' ?s) = [''09:15'']" by simp
  from r a b show ?thesis by blast
qed

text \<open>
  C10. When the only entry of \<^verbatim>\<open>times\<close> fires while \<^verbatim>\<open>per_hour > 0\<close>, the call
  returns \<^verbatim>\<open>True\<close> and leaves the flag at \<^verbatim>\<open>'times'\<close> over an empty list; from
  that state every call, at any clock reading, returns \<^verbatim>\<open>False\<close> and changes
  nothing, so does every sequence of calls, and \<^verbatim>\<open>remove_time\<close> does not change the
  state either: only \<^verbatim>\<open>set_per_hour\<close> or \<^verbatim>\<open>add_time\<close> writes the flag again.
\<close>

theorem last_fixed_time_blocks_per_hour:
  assumes "mode s = Some Times" "times_list s = [tstr]" "strptime_HM tstr = Some (h, m)"
    "candidate now h m \<le> now" "0 < per_hour s"
  shows "should_play_jingle_after_song now s = Some (Inr (True, s\<lparr>times_list := []\<rparr>))
    \<and> mode (s\<lparr>times_list := []\<rparr>) = Some Times
    \<and> (\<forall>now'. should_play_jingle_after_song now' (s\<lparr>times_list := []\<rparr>)
                 = Some (Inr (False, s\<lparr>times_list := []\<rparr>)))
    \<and> (\<forall>nows. run_calls nows (s\<lparr>times_list := []\<rparr>)
                 = Some (Inr (replicate (length nows) False, s\<lparr>times_list := []\<rparr>)))
    \<and> (\<forall>t. remove_time t (s\<lparr>times_list := []\<rparr>) = s\<lparr>times_list := []\<rparr>)"
proof -
  let ?s' = "s\<lparr>times_list := []\<rparr>"
  have fire: "should_play_jingle_after_song now s = Some (Inr (True, ?s'))"
    using assms by (simp add: should_play_jingle_after_song_def)
  have idle: "should_play_jingle_after_song now' ?s' = Some (Inr (False, ?s'))" for now'
    using assms(1) by (simp add: should_play_jingle_after_song_def per_hour_branch_def)
  have rem: "remove_time t ?s' = ?s'" for t
    using assms(5) by (simp add: remove_time_def)
  show ?thesis
    using fire idle rem run_calls_const [of ?s', OF idle] assms(1) by simp
qed

theorem last_fixed_time_blocks_per_hour_witness:
  "should_play_jingle_after_song 1800000000 (snd (add_time ''00:05'' (set_per_hour 0 60 init_state)))
     = Some (Inr (True, (snd (add_time ''00:05'' (set_per_hour 0 60 init_state)))\<lparr>times_list := []\<rparr>))
   \<and> run_calls [3600000000, 7200000000, 86400000000]
        ((snd (add_time ''00:05'' (set_per_hour 0 60 init_state)))\<lparr>times_list := []\<rparr>)
     = Some (Inr ([False, False, False],
          (snd (add_time ''00:05'' (set_per_hour 0 60 init_state)))\<lparr>times_list := []\<rparr>))
   \<and> next_jingle_time (snd (add_time ''00:05'' (set_per_hour 0 60 init_state))) = Some 60000000"
proof -
  let ?s = "snd (add_time ''00:05'' (set_per_hour 0 60 init_state))"
  have p: "strptime_HM ''00:05'' = Some (0, 5)"
    by (simp add: strptime_HM_def is_digit_def digit_val_def)
  have s: "?s = \<lparr>mode = Some Times, times_list = [''00:05''], per_hour = 60,
      next_jingle_time = Some 60000000, last_jingle_time = Some 0\<rparr>"
    by (simp add: add_time_def p set_per_hour_def init_state_def timedelta_us_def Let_def)
  have c: "candidate 1800000000 0 5 \<le> 1800000000"
    by (simp add: candidate_def day_us_def)
  have "mode ?s = Some Times" "times_list ?s = [''00:05'']" "0 < per_hour ?s"
    by (simp_all add: s)
  from last_fixed_time_blocks_per_hour [OF this(1,2) p c this(3)]
  show ?thesis
    by (simp add: s)
qed

text \<open>
  C1, as the claim states it, for every \<open>n > 0\<close>. It fails at \<open>n = 10000000000\<close>:
  \<^verbatim>\<open>timedelta(seconds=3600.0 / n)\<close> is then zero microseconds, the due instant is
  the instant of configuration, and the call made at that instant does not return:
  the catch-up loop adds a zero period for ever.
\<close>

theorem per_hour_first_fire_counterexample:
  "0 < (10000000000 :: int)
   \<and> next_jingle_time (set_per_hour 0 10000000000 init_state) = Some 0
   \<and> should_play_jingle_after_song 0 (set_per_hour 0 10000000000 init_state) = None"
proof -
  let ?s = "set_per_hour 0 10000000000 init_state"
  have t: "timedelta_us 10000000000 = 0" by (simp add: timedelta_us_def Let_def)
  have f: "mode ?s = Some PerHour" "per_hour ?s = 10000000000" "next_jingle_time ?s = Some 0"
    by (simp_all add: set_per_hour_def t)
  have "should_play_jingle_after_song 0 ?s = None"
    by (rule per_hour_diverges [where g = 0]) (simp_all add: f t)
  with f(3) show ?thesis by simp
qed

text \<open>
  C1, amended: for every \<open>n > 0\<close> whose period \<^verbatim>\<open>timedelta(seconds=3600.0 / n)\<close> is
  at least one microsecond (every \<open>n\<close> below 7200000000, see \<open>timedelta_us_pos\<close>).
  Right after \<^verbatim>\<open>set_per_hour(n)\<close> at the instant \<open>t0\<close>, the due instant is
  \<open>t0\<close> plus the period; every call before it, and every sequence of such calls,
  returns \<^verbatim>\<open>False\<close> and leaves the state unchanged; a call at or after it returns
  \<^verbatim>\<open>True\<close> and moves \<^verbatim>\<open>next_jingle_time\<close> forward by one or more whole periods
  to an instant after \<open>now\<close>, with \<^verbatim>\<open>last_jingle_time\<close> the due instant one period
  earlier, which is not after \<open>now\<close>.
\<close>

theorem per_hour_first_fire:
  assumes "0 < n" "0 < timedelta_us n"
  shows "next_jingle_time (set_per_hour t0 n s) = Some (t0 + timedelta_us n)
    \<and> (\<forall>now. now < t0 + timedelta_us n \<longrightarrow>
          should_play_jingle_after_song now (set_per_hour t0 n s)
            = Some (Inr (False, set_per_hour t0 n s)))
    \<and> (\<forall>nows. (\<forall>t\<in>set nows. t < t0 + timedelta_us n) \<longrightarrow>
          run_calls nows (set_per_hour t0 n s)
            = Some (Inr (replicate (length nows) False, set_per_hour t0 n s)))
    \<and> (\<forall>now. t0 + timedelta_us n \<le> now \<longrightarrow>
          (\<exists>k. should_play_jingle_after_song now (set_per_hour t0 n s)
                 = Some (Inr (True, (set_per_hour t0 n s)
                      \<lparr>last_jingle_time := Some (t0 + timedelta_us n + int k * timedelta_us n),
                       next_jingle_time := Some (t0 + timedelta_us n + int (Suc k) * timedelta_us n)\<rparr>))
              \<and> t0 + timedelta_us n + int k * timedelta_us n \<le> now
              \<and> now < t0 + timedelta_us n + int (Suc k) * timedelta_us n))"
proof -
  let ?s0 = "set_per_hour t0 n s"
  let ?g = "t0 + timedelta_us n"
  have f: "mode ?s0 = Some PerHour" "per_hour ?s0 = n" "next_jingle_time ?s0 = Some ?g"
    using assms(1) by (simp_all add: set_per_hour_def)
  have idle: "should_play_jingle_after_song now ?s0 = Some (Inr (False, ?s0))" if "now < ?g" for now
    using per_hour_not_due [OF f(1) f(3) that] .
  have runs: "run_calls nows ?s0 = Some (Inr (replicate (length nows) False, ?s0))"
    if "\<forall>t\<in>set nows. t < ?g" for nows
    using that by (intro run_calls_idle idle) blast
  have fire: "\<exists>k. should_play_jingle_after_song now ?s0
                 = Some (Inr (True, ?s0
                      \<lparr>last_jingle_time := Some (?g + int k * timedelta_us n),
                       next_jingle_time := Some (?g + int (Suc k) * timedelta_us n)\<rparr>))
              \<and> ?g + int k * timedelta_us n \<le> now
              \<and> now < ?g + int (Suc k) * timedelta_us n" if "?g \<le> now" for now
    using per_hour_due [of ?s0 ?g now] f assms that by simp
  show ?thesis
    using f(3) idle runs fire by blast
qed

theorem per_hour_first_fire_witness:
  "next_jingle_time (set_per_hour 0 2 init_state) = Some 1800000000
   \<and> should_play_jingle_after_song 1700000000 (set_per_hour 0 2 init_state)
       = Some (Inr (False, set_per_hour 0 2 init_state))
   \<and> run_calls [0, 1700000000] (set_per_hour 0 2 init_state)
       = Some (Inr ([False, False], set_per_hour 0 2 init_state))
   \<and> (\<exists>k. should_play_jingle_after_song 1800000000 (set_per_hour 0 2 init_state)
             = Some (Inr (True, (set_per_hour 0 2 init_state)
                  \<lparr>last_jingle_time := Some (1800000000 + int k * 1800000000),
                   next_jingle_time := Some (1800000000 + int (Suc k) * 1800000000)\<rparr>))
          \<and> 1800000000 + int k * 1800000000 \<le> 1800000000
          \<and> (1800000000 :: int) < 1800000000 + int (Suc k) * 1800000000)"
proof -
  have t: "timedelta_us 2 = 1800000000" by (simp add: timedelta_us_def Let_def)
  have h: "(0::int) < 2" "0 < timedelta_us 2" by (simp_all add: t)
  from per_hour_first_fire [OF h, of 0 init_state]
  have a: "next_jingle_time (set_per_hour 0 2 init_state) = Some 1800000000"
    and b: "\<And>now. now < 1800000000 \<Longrightarrow>
          should_play_jingle_after_song now (set_per_hour 0 2 init_state)
            = Some (Inr (False, set_per_hour 0 2 init_state))"
    and c: "\<And>nows. (\<forall>t\<in>set nows. t < 1800000000) \<Longrightarrow>
          run_calls nows (set_per_hour 0 2 init_state)
            = Some (Inr (replicate (length nows) False, set_per_hour 0 2 init_state))"
    and d: "\<And>now. 1800000000 \<le> now \<Longrightarrow>
          (\<exists>k. should_play_jingle_after_song now (set_per_hour 0 2 init_state)
                 = Some (Inr (True, (set_per_hour 0 2 init_state)
                      \<lparr>last_jingle_time := Some (1800000000 + int k * 1800000000),
                       next_jingle_time := Some (1800000000 + int (Suc k) * 1800000000)\<rparr>))
              \<and> 1800000000 + int k * 1800000000 \<le> now
              \<and> now < 1800000000 + int (Suc k) * 1800000000)"
    unfolding t by simp_all
  have c': "run_calls [0, 1700000000] (set_per_hour 0 2 init_state)
       = Some (Inr ([False, False], set_per_hour 0 2 init_state))"
    using c [of "[0, 1700000000]"] by simp
  show ?thesis using a b [of 1700000000] c' d [of 1800000000] by simp
qed

text \<open>
  C3, as the claim states it: no two \<^verbatim>\<open>True\<close> within a window of one period. It
  fails for two jingles per hour (a period of 1800 s) configured at 0 and calls at
  1700 s, 3400 s and 3700 s, which are increasing and less than a period apart: the
  calls at 3400 s and 3700 s both return \<^verbatim>\<open>True\<close>, 300 s apart, since the due
  instant is re-armed on the grid 1800 s, 3600 s, 5400 s and not one period after the
  call.
\<close>

theorem per_hour_window_counterexample:
  "run_calls [1700000000, 3400000000, 3700000000] (set_per_hour 0 2 init_state)
     = Some (Inr ([False, True, True],
          \<lparr>mode = Some PerHour, times_list = [], per_hour = 2,
           next_jingle_time = Some 5400000000, last_jingle_time = Some 3600000000\<rparr>))
   \<and> (3400000000 :: int) - 1700000000 < timedelta_us 2
   \<and> (3700000000 :: int) - 3400000000 < timedelta_us 2"
proof -
  have t: "timedelta_us 2 = 1800000000" by (simp add: timedelta_us_def Let_def)
  show ?thesis
    by (simp add: should_play_jingle_after_song_def per_hour_branch_def set_per_hour_def
        init_state_def t advance_loop_step advance_loop_stop)
qed

text \<open>
  C3, amended: in per-hour mode with a period \<open>p\<close> of at least one microsecond and
  the due instant \<open>g\<close>, every sequence of calls returns, and two calls that both return
  \<^verbatim>\<open>True\<close> have their clock readings in different periods
  \<open>[g + k p, g + (k + 1) p)\<close> of the schedule grid, the later call in a later
  period: at most one \<^verbatim>\<open>True\<close> per grid period. After a \<^verbatim>\<open>True\<close>, every call
  with \<open>now\<close> before the re-armed \<^verbatim>\<open>next_jingle_time\<close> returns \<^verbatim>\<open>False\<close> and
  changes nothing.
\<close>

theorem per_hour_no_double_fire:
  assumes "mode s = Some PerHour" "0 < per_hour s" "0 < timedelta_us (per_hour s)"
    "next_jingle_time s = Some g"
  shows "(\<exists>bs s'. run_calls nows s = Some (Inr (bs, s')) \<and> length bs = length nows
      \<and> (\<forall>i j. i < j \<and> j < length nows \<and> bs ! i \<and> bs ! j \<longrightarrow>
            grid_cell g (timedelta_us (per_hour s)) (nows ! i)
              < grid_cell g (timedelta_us (per_hour s)) (nows ! j)))
    \<and> (\<forall>now s1. should_play_jingle_after_song now s = Some (Inr (True, s1)) \<longrightarrow>
          (\<exists>g'. next_jingle_time s1 = Some g' \<and> now < g'
             \<and> (\<forall>now'. now' < g' \<longrightarrow>
                   should_play_jingle_after_song now' s1 = Some (Inr (False, s1)))))"
proof (intro conjI allI impI)
  from per_hour_run [OF assms(3,2) assms(1) refl, of g 0 nows] assms(4)
  show "\<exists>bs s'. run_calls nows s = Some (Inr (bs, s')) \<and> length bs = length nows
      \<and> (\<forall>i j. i < j \<and> j < length nows \<and> bs ! i \<and> bs ! j \<longrightarrow>
            grid_cell g (timedelta_us (per_hour s)) (nows ! i)
              < grid_cell g (timedelta_us (per_hour s)) (nows ! j))"
    by auto
next
  fix now s1
  assume fired: "should_play_jingle_after_song now s = Some (Inr (True, s1))"
  have due: "g \<le> now"
  proof (rule ccontr)
    assume "\<not> g \<le> now"
    then have "now < g" by simp
    from per_hour_not_due [OF assms(1,4) this] fired show False by simp
  qed
  from per_hour_due [OF assms due] fired
  obtain k where k: "s1 = s\<lparr>last_jingle_time := Some (g + int k * timedelta_us (per_hour s)),
                             next_jingle_time := Some (g + int (Suc k) * timedelta_us (per_hour s))\<rparr>"
     "now < g + int (Suc k) * timedelta_us (per_hour s)"
    by auto
  let ?g' = "g + int (Suc k) * timedelta_us (per_hour s)"
  have m: "mode s1 = Some PerHour" "next_jingle_time s1 = Some ?g'"
    using k(1) assms(1) by simp_all
  have "should_play_jingle_after_song now' s1 = Some (Inr (False, s1))" if "now' < ?g'" for now'
    using per_hour_not_due [OF m that] .
  with m(2) k(2)
  show "\<exists>g'. next_jingle_time s1 = Some g' \<and> now < g'
             \<and> (\<forall>now'. now' < g' \<longrightarrow>
                   should_play_jingle_after_song now' s1 = Some (Inr (False, s1)))"
    by blast
qed

theorem per_hour_no_double_fire_witness:
  "mode (set_per_hour 0 2 init_state) = Some PerHour
   \<and> 0 < per_hour (set_per_hour 0 2 init_state)
   \<and> 0 < timedelta_us (per_hour (set_per_hour 0 2 init_state))
   \<and> next_jingle_time (set_per_hour 0 2 init_state) = Some 1800000000
   \<and> (\<exists>bs s'. run_calls [1700000000, 3400000000, 3700000000] (set_per_hour 0 2 init_state)
              = Some (Inr (bs, s'))
      \<and> length bs = length [1700000000, 3400000000, 3700000000 :: int]
      \<and> (\<forall>i j. i < j \<and> j < length [1700000000, 3400000000, 3700000000 :: int]
                \<and> bs ! i \<and> bs ! j \<longrightarrow>
            grid_cell 1800000000 (timedelta_us (per_hour (set_per_hour 0 2 init_state)))
                ([1700000000, 3400000000, 3700000000] ! i)
              < grid_cell 1800000000 (timedelta_us (per_hour (set_per_hour 0 2 init_state)))
                ([1700000000, 3400000000, 3700000000] ! j)))"
proof -
  let ?s = "set_per_hour 0 2 init_state"
  have t: "timedelta_us 2 = 1800000000" by (simp add: timedelta_us_def Let_def)
  have f: "mode ?s = Some PerHour" "0 < per_hour ?s" "0 < timedelta_us (per_hour ?s)"
    "next_jingle_time ?s = Some 1800000000"
    by (simp_all add: set_per_hour_def t)
  from per_hour_no_double_fire [OF f, of "[1700000000, 3400000000, 3700000000]"] f
  show ?thesis by blast
qed

text \<open>
  C2, as the claim states it, for any configured fixed time. It fails when
  \<^verbatim>\<open>set_per_hour(2)\<close> follows \<^verbatim>\<open>add_time('00:00')\<close>: the flag is then
  \<^verbatim>\<open>'per_hour'\<close>, the guard \<^verbatim>\<open>'times' == self.mode\<close> skips the list, and the call
  at 00:05 returns \<^verbatim>\<open>False\<close> with the due entry still in \<^verbatim>\<open>times\<close>.
\<close>

theorem fixed_time_skipped_counterexample:
  "''00:00'' \<in> set (times_list (set_per_hour 0 2 (snd (add_time ''00:00'' init_state))))
   \<and> strptime_HM ''00:00'' = Some (0, 0)
   \<and> candidate 300000000 0 0 \<le> 300000000
   \<and> should_play_jingle_after_song 300000000 (set_per_hour 0 2 (snd (add_time ''00:00'' init_state)))
       = Some (Inr (False, set_per_hour 0 2 (snd (add_time ''00:00'' init_state))))"
proof -
  have p: "strptime_HM ''00:00'' = Some (0, 0)"
    by (simp add: strptime_HM_def is_digit_def digit_val_def)
  have t: "timedelta_us 2 = 1800000000" by (simp add: timedelta_us_def Let_def)
  show ?thesis
    by (simp add: p t add_time_def set_per_hour_def init_state_def candidate_def day_us_def
        should_play_jingle_after_song_def per_hour_branch_def)
qed

text \<open>
  C2, amended: in a reachable state whose flag is \<^verbatim>\<open>'times'\<close>, when some entry
  \<open>T\<close> of \<^verbatim>\<open>times\<close> is due at \<open>now\<close>, the call returns \<^verbatim>\<open>True\<close> and removes
  exactly one entry, the first due one in list order (\<open>T\<close> itself unless a due entry
  precedes it, and then \<open>T\<close> stays in the list behind it); no entry before the removed
  one is due; the per-hour fields are untouched; the flag becomes \<^verbatim>\<open>None\<close> only if
  the list is now empty and \<^verbatim>\<open>per_hour == 0\<close>. No later sequence of calls brings the
  removed occurrence back: for every string, the number of its occurrences in
  \<^verbatim>\<open>times\<close> never exceeds the number left by the firing call.
\<close>

theorem fixed_time_fires_once:
  assumes "reachable s" "mode s = Some Times"
    and "T \<in> set (times_list s)" "strptime_HM T = Some (h, m)" "candidate now h m \<le> now"
  shows "\<exists>pre T1 post h1 m1.
      times_list s = pre @ T1 # post
      \<and> strptime_HM T1 = Some (h1, m1) \<and> candidate now h1 m1 \<le> now
      \<and> (\<forall>x\<in>set pre. \<exists>hx mx. strptime_HM x = Some (hx, mx) \<and> now < candidate now hx mx)
      \<and> (T1 = T \<or> T \<in> set post)
      \<and> should_play_jingle_after_song now s
          = Some (Inr (True, s\<lparr>times_list := pre @ post,
                mode := (if pre @ post = [] \<and> per_hour s = 0 then None else Some Times)\<rparr>))
      \<and> (\<forall>nows bs s''.
            run_calls nows (s\<lparr>times_list := pre @ post,
                mode := (if pre @ post = [] \<and> per_hour s = 0 then None else Some Times)\<rparr>)
              = Some (Inr (bs, s''))
            \<longrightarrow> (\<forall>x. count_list (times_list s'') x \<le> count_list (pre @ post) x))"
proof -
  from scan_times_split [OF reachable_times_parse [OF assms(1)] assms(3,4,5)]
  obtain pre T1 post h1 m1 where sp: "times_list s = pre @ T1 # post"
      "strptime_HM T1 = Some (h1, m1)" "candidate now h1 m1 \<le> now"
      "\<forall>x\<in>set pre. \<exists>hx mx. strptime_HM x = Some (hx, mx) \<and> now < candidate now hx mx"
      "T1 = T \<or> T \<in> set post" "scan_times now (times_list s) = Inr (Some T1)"
    by blast
  have "T1 \<notin> set pre" using sp(2,3,4) by fastforce
  then have rm: "remove1 T1 (times_list s) = pre @ post"
    using sp(1) by (simp add: remove1_append)
  let ?s' = "s\<lparr>times_list := pre @ post,
                mode := (if pre @ post = [] \<and> per_hour s = 0 then None else Some Times)\<rparr>"
  have fire: "should_play_jingle_after_song now s = Some (Inr (True, ?s'))"
    using assms(2) sp(1,6) rm
    by (auto simp add: should_play_jingle_after_song_def Let_def)
  have later: "count_list (times_list s'') x \<le> count_list (pre @ post) x"
    if "run_calls nows ?s' = Some (Inr (bs, s''))" for nows bs s'' x
    using run_calls_count [OF that, of x] by simp
  show ?thesis
    using sp(1-5) fire later by blast
qed

theorem fixed_time_fires_once_witness:
  "reachable (snd (add_time ''00:00'' (snd (add_time ''09:00'' init_state))))
   \<and> mode (snd (add_time ''00:00'' (snd (add_time ''09:00'' init_state)))) = Some Times
   \<and> ''00:00'' \<in> set (times_list (snd (add_time ''00:00'' (snd (add_time ''09:00'' init_state)))))
   \<and> strptime_HM ''00:00'' = Some (0, 0)
   \<and> candidate 300000000 0 0 \<le> 300000000
   \<and> should_play_jingle_after_song 300000000
        (snd (add_time ''00:00'' (snd (add_time ''09:00'' init_state))))
       = Some (Inr (True, \<lparr>mode = Some Times, times_list = [''09:00''], per_hour = 0,
             next_jingle_time = None, last_jingle_time = None\<rparr>))
   \<and> run_calls [300000001, 400000000]
        \<lparr>mode = Some Times, times_list = [''09:00''], per_hour = 0,
             next_jingle_time = None, last_jingle_time = None\<rparr>
       = Some (Inr ([False, False], \<lparr>mode = Some Times, times_list = [''09:00''], per_hour = 0,
             next_jingle_time = None, last_jingle_time = None\<rparr>))"
proof -
  let ?s = "snd (add_time ''00:00'' (snd (add_time ''09:00'' init_state)))"
  let ?s' = "\<lparr>mode = Some Times, times_list = [''09:00''], per_hour = 0,
             next_jingle_time = None, last_jingle_time = None\<rparr>"
  have p0: "strptime_HM ''00:00'' = Some (0, 0)" and p9: "strptime_HM ''09:00'' = Some (9, 0)"
    by (simp_all add: strptime_HM_def is_digit_def digit_val_def)
  have s: "?s = \<lparr>mode = Some Times, times_list = [''09:00'', ''00:00''], per_hour = 0,
             next_jingle_time = None, last_jingle_time = None\<rparr>"
    by (simp add: add_time_def p0 p9 init_state_def)
  have r: "reachable ?s" by (intro reach_add_time reach_init)
  have m: "mode ?s = Some Times" and i: "''00:00'' \<in> set (times_list ?s)"
    by (simp_all add: s)
  have c: "candidate 300000000 0 0 \<le> 300000000" by (simp add: candidate_def day_us_def)
  have n9: "\<not> candidate 300000000 9 0 \<le> 300000000" by (simp add: candidate_def day_us_def)
  from fixed_time_fires_once [OF r m i p0 c]
  obtain pre T1 post h1 m1 where w:
      "times_list ?s = pre @ T1 # post"
      "strptime_HM T1 = Some (h1, m1)" "candidate 300000000 h1 m1 \<le> 300000000"
      "should_play_jingle_after_song 300000000 ?s
          = Some (Inr (True, ?s\<lparr>times_list := pre @ post,
                mode := (if pre @ post = [] \<and> per_hour ?s = 0 then None else Some Times)\<rparr>))"
    by blast
  have "pre = [''09:00''] \<and> T1 = ''00:00'' \<and> post = []"
  proof (cases pre)
    case Nil
    with w(1) have "T1 = ''09:00''" by (simp add: s)
    with w(2,3) p9 n9 show ?thesis by simp
  next
    case (Cons a pre')
    with w(1) show ?thesis by (cases pre') (simp_all add: s)
  qed
  with w(4) have fire: "should_play_jingle_after_song 300000000 ?s = Some (Inr (True, ?s'))"
    by (simp add: s)
  have idle: "run_calls [300000001, 400000000] ?s' = Some (Inr ([False, False], ?s'))"
    by (simp add: should_play_jingle_after_song_def per_hour_branch_def p9 candidate_def day_us_def)
  from r m i p0 c fire idle show ?thesis by blast
qed

text \<open>
  C5. The claim asks that \<^verbatim>\<open>Error\<close> on the main player be handled as
  \<^verbatim>\<open>Ended\<close>. On a two-song playlist at position 0, a pass of the monitor loop that
  sees \<^verbatim>\<open>Error\<close> changes nothing and makes no call on the player, whereas the same
  pass on \<^verbatim>\<open>Ended\<close> moves to position 1 and plays the second song.
\<close>

theorem monitor_ignores_main_error:
  "monitor_playback_pass Error 0 0 []
      \<lparr>playlist = [''a.mp3'', ''b.mp3''], jingles = [], play_index = 0, playing_jingle = False,
       jplayer = None, scheduler = init_state, calls = []\<rparr>
    = Some (Inr \<lparr>playlist = [''a.mp3'', ''b.mp3''], jingles = [], play_index = 0,
       playing_jingle = False, jplayer = None, scheduler = init_state, calls = []\<rparr>)
   \<and> monitor_playback_pass Ended 0 0 []
      \<lparr>playlist = [''a.mp3'', ''b.mp3''], jingles = [], play_index = 0, playing_jingle = False,
       jplayer = None, scheduler = init_state, calls = []\<rparr>
    = Some (Inr \<lparr>playlist = [''a.mp3'', ''b.mp3''], jingles = [], play_index = 1,
       playing_jingle = False, jplayer = None, scheduler = init_state,
       calls = [Set_media ''b.mp3'', Play]\<rparr>)"
  by (simp add: monitor_playback_pass_def should_play_jingle_after_song_def per_hour_branch_def
      init_state_def advance_index_def play_current_song_def list_item_def)

text \<open>
  C7. The claim asks that a next request during a jingle move the position by exactly
  one. Two jingles per hour are configured at 0, the playlist has three songs and the
  third one (position 2) ends at 1800 s: the pass of the monitor loop finds a jingle
  due, starts it and waits. \<^verbatim>\<open>play_next\<close> then stops and drops the jingle player,
  moves to position 0 and plays the first song, without a call of the scheduler. The
  monitor thread, going on from its loop test, finds \<^verbatim>\<open>playing_jingle\<close> cleared,
  leaves the wait although the jingle player reports nothing terminal, and advances
  again: the position ends at 1 and the second song replaces the first.
\<close>

theorem next_during_jingle_advances_twice:
  "should_play_jingle_after_song 1800000000 (set_per_hour 0 2 init_state)
     = Some (Inr (True, \<lparr>mode = Some PerHour, times_list = [], per_hour = 2,
         next_jingle_time = Some 3600000000, last_jingle_time = Some 1800000000\<rparr>))
   \<and> jingle_start ''j.mp3''
      \<lparr>playlist = [''a.mp3'', ''b.mp3'', ''c.mp3''], jingles = [''j.mp3''],
       play_index = 2, playing_jingle = False, jplayer = None,
       scheduler = \<lparr>mode = Some PerHour, times_list = [], per_hour = 2,
         next_jingle_time = Some 3600000000, last_jingle_time = Some 1800000000\<rparr>,
       calls = []\<rparr>
    = \<lparr>playlist = [''a.mp3'', ''b.mp3'', ''c.mp3''], jingles = [''j.mp3''],
       play_index = 2, playing_jingle = True, jplayer = Some ''j.mp3'',
       scheduler = \<lparr>mode = Some PerHour, times_list = [], per_hour = 2,
         next_jingle_time = Some 3600000000, last_jingle_time = Some 1800000000\<rparr>,
       calls = [J_new, J_set_media ''j.mp3'', J_play]\<rparr>
   \<and> play_next
      \<lparr>playlist = [''a.mp3'', ''b.mp3'', ''c.mp3''], jingles = [''j.mp3''],
       play_index = 2, playing_jingle = True, jplayer = Some ''j.mp3'',
       scheduler = \<lparr>mode = Some PerHour, times_list = [], per_hour = 2,
         next_jingle_time = Some 3600000000, last_jingle_time = Some 1800000000\<rparr>,
       calls = [J_new, J_set_media ''j.mp3'', J_play]\<rparr>
    = Inr \<lparr>playlist = [''a.mp3'', ''b.mp3'', ''c.mp3''], jingles = [''j.mp3''],
       play_index = 0, playing_jingle = False, jplayer = None,
       scheduler = \<lparr>mode = Some PerHour, times_list = [], per_hour = 2,
         next_jingle_time = Some 3600000000, last_jingle_time = Some 1800000000\<rparr>,
       calls = [J_new, J_set_media ''j.mp3'', J_play, J_stop, Set_media ''a.mp3'', Play]\<rparr>
   \<and> monitor_resume [Playing]
      \<lparr>playlist = [''a.mp3'', ''b.mp3'', ''c.mp3''], jingles = [''j.mp3''],
       play_index = 0, playing_jingle = False, jplayer = None,
       scheduler = \<lparr>mode = Some PerHour, times_list = [], per_hour = 2,
         next_jingle_time = Some 3600000000, last_jingle_time = Some 1800000000\<rparr>,
       calls = [J_new, J_set_media ''j.mp3'', J_play, J_stop, Set_media ''a.mp3'', Play]\<rparr>
    = Some (Inr \<lparr>playlist = [''a.mp3'', ''b.mp3'', ''c.mp3''], jingles = [''j.mp3''],
       play_index = 1, playing_jingle = False, jplayer = None,
       scheduler = \<lparr>mode = Some PerHour, times_list = [], per_hour = 2,
         next_jingle_time = Some 3600000000, last_jingle_time = Some 1800000000\<rparr>,
       calls = [J_new, J_set_media ''j.mp3'', J_play, J_stop, Set_media ''a.mp3'', Play,
                Set_media ''b.mp3'', Play]\<rparr>)"
proof -
  have t: "timedelta_us 2 = 1800000000" by (simp add: timedelta_us_def Let_def)
  have due: "should_play_jingle_after_song 1800000000 (set_per_hour 0 2 init_state)
     = Some (Inr (True, \<lparr>mode = Some PerHour, times_list = [], per_hour = 2,
         next_jingle_time = Some 3600000000, last_jingle_time = Some 1800000000\<rparr>))"
    by (simp add: should_play_jingle_after_song_def per_hour_branch_def set_per_hour_def
        init_state_def t advance_loop_step advance_loop_stop)
  show ?thesis
    unfolding due
    by (simp add: jingle_start_def play_next_def monitor_resume_def after_jingle_wait_def
        advance_index_def play_current_song_def list_item_def)
qed



end
